theory Spec2Isabelle
  imports Complex_Main "HOL-Library.Word" "HOL-Library.Monad_Syntax"
begin

unbundle bit_operations_syntax

section \<open>Data model of the Maschine Mikro MK1 report decoder\<close>

type_synonym u8 = "8 word"
type_synonym u32 = "32 word"

text \<open>
  A report is a sequence of bytes: the buffer \<open>Transfer\<close> is the list of its bytes and
  \<open>size()\<close> is the length of the list.
\<close>

type_synonym Transfer = "u8 list"

text \<open>
  Modelled from the spec: the conversion of a \<open>Transfer\<close> to \<open>bool\<close>, declared in
  cabl/comm/Transfer.h and used in \<open>if (!input_)\<close>. The test separates the empty input
  ("no data this tick") from the reports, so it holds exactly of the buffers that are
  not empty.
\<close>

definition has_data :: "Transfer \<Rightarrow> bool" where
  "has_data input = (input \<noteq> [])"

text \<open>
  Reading \<open>input_[i]\<close>, an element of a \<open>std::array\<close> or of a C table beyond its end is
  undefined behaviour, and \<open>std::bitset::set\<close> and \<open>test\<close> throw \<open>std::out_of_range\<close>
  there. Every such access is checked in the model: \<open>None\<close> stands for an access out
  of bounds.
\<close>

definition elem_at :: "'a list \<Rightarrow> nat \<Rightarrow> 'a option" where
  "elem_at xs i = (if i < length xs then Some (xs ! i) else None)"

definition array_set :: "'a list \<Rightarrow> nat \<Rightarrow> 'a \<Rightarrow> 'a list option" where
  "array_set xs i v = (if i < length xs then Some (xs[i := v]) else None)"

definition bitset_test :: "bool list \<Rightarrow> nat \<Rightarrow> bool option" where
  "bitset_test bs pos = elem_at bs pos"

definition bitset_set :: "bool list \<Rightarrow> nat \<Rightarrow> bool \<Rightarrow> bool list option" where
  "bitset_set bs pos v = array_set bs pos v"

text \<open>
  The enumerators of \<open>Device::Button\<close> (cabl/devices/Device.h) that the bank/bit table
  of this device names; the enumerator \<open>Main\<close> is written \<open>MainButton\<close>.
\<close>

datatype Button =
    Unknown
  | Mute | Solo | Select | Duplicate | View | PadMode | Pattern | Scene
  | Enter | NavigateRight | NavigateLeft | Nav | MainButton | F3 | F2 | F1
  | MainEncoder | NoteRepeat | Group | Sampling | Browse
  | Shift | Erase | Rec | Play | Grid | TransportRight | TransportLeft | Restart

text \<open>
  Modelled from the spec: the callbacks \<open>buttonChanged\<close>, \<open>encoderChanged\<close> and
  \<open>keyChanged\<close> of the enclosing \<open>Device\<close> (cabl/devices/Device.h), the three
  event-emission callbacks with the arguments (identity, pressed, shift), (index,
  increased, shift) and (logical index, value, flag). They are the decoder's only output:
  each call is recorded as an event, and a decoder returns the list of events in the
  order of the calls. The value of a key event is the C++ \<open>double\<close>
  \<open>value / 1024.0\<close>; \<open>value\<close> is below \<open>2 ^ 12\<close> and the divisor is a power of two, so
  the quotient is exact and is modelled as a real number.
\<close>

datatype event =
    ButtonChanged Button bool bool
  | EncoderChanged nat bool bool
  | KeyChanged nat real bool

fun is_encoder_event :: "event \<Rightarrow> bool" where
  "is_encoder_event (EncoderChanged _ _ _) = True"
| "is_encoder_event _ = False"

fun is_button_event :: "event \<Rightarrow> bool" where
  "is_button_event (ButtonChanged _ _ _) = True"
| "is_button_event _ = False"

definition kPadThreshold :: u32 where
  "kPadThreshold = 200"

definition kNumPads :: u8 where
  "kNumPads = 16"

definition kNumButtonBits :: nat where
  "kNumButtonBits = 32"

definition kRawPadToLogical :: "u8 list" where
  "kRawPadToLogical = [12, 13, 14, 15, 8, 9, 10, 11, 4, 5, 6, 7, 0, 1, 2, 3]"

text \<open>The table \<open>kButtonByBankBit[5][8]\<close>: identity and name of each bank/bit pair.\<close>

definition kButtonByBankBit :: "(Button \<times> string) list list" where
  "kButtonByBankBit =
   [ [(Unknown, ''Unknown''), (Unknown, ''Unknown''), (Unknown, ''Unknown''),
      (Unknown, ''Unknown''), (Unknown, ''Unknown''), (Unknown, ''Unknown''),
      (Unknown, ''Unknown''), (Unknown, ''Unknown'')],
     [(Mute, ''Mute''), (Solo, ''Solo''), (Select, ''Select''),
      (Duplicate, ''Duplicate''), (View, ''View''), (PadMode, ''Pad Mode''),
      (Pattern, ''Pattern''), (Scene, ''Scene'')],
     [(Enter, ''Enter''), (NavigateRight, ''Right Nav''), (NavigateLeft, ''Left Nav''),
      (Nav, ''Nav''), (MainButton, ''Main''), (F3, ''F3''), (F2, ''F2''), (F1, ''F1'')],
     [(Unknown, ''Unknown''), (Unknown, ''Unknown''), (Unknown, ''Unknown''),
      (MainEncoder, ''Encoder Press''), (NoteRepeat, ''Note Repeat''), (Group, ''Group''),
      (Sampling, ''Sampling''), (Browse, ''Browse'')],
     [(Shift, ''Shift''), (Erase, ''Erase''), (Rec, ''Record''), (Play, ''Play''),
      (Grid, ''Grid''), (TransportRight, ''Right Transport''),
      (TransportLeft, ''Left Transport''), (Restart, ''Restart'')] ]"

text \<open>
  The members of the class. \<open>m_buttonsActiveLow\<close> is \<open>-1\<close> while the polarity is
  unknown, \<open>0\<close> for active-high and \<open>1\<close> for active-low.
\<close>

record MaschineMikroMK1 =
  m_padValues :: "u32 list"
  m_padDown :: "bool list"
  m_buttonDown :: "bool list"
  m_buttonsActiveLow :: int
  m_encoderInitialized :: bool
  m_encoderValue :: u8

text \<open>The sizes that the types \<open>std::array\<close> and \<open>std::bitset\<close> fix.\<close>

definition wf_state :: "MaschineMikroMK1 \<Rightarrow> bool" where
  "wf_state s = (length (m_padValues s) = unat kNumPads
               \<and> length (m_padDown s) = unat kNumPads
               \<and> length (m_buttonDown s) = kNumButtonBits)"

text \<open>The object as its default member initialisers build it.\<close>

definition new_device :: MaschineMikroMK1 where
  "new_device = \<lparr> m_padValues = replicate (unat kNumPads) 0,
                  m_padDown = replicate (unat kNumPads) False,
                  m_buttonDown = replicate kNumButtonBits False,
                  m_buttonsActiveLow = -1,
                  m_encoderInitialized = False,
                  m_encoderValue = 0 \<rparr>"

definition init :: "MaschineMikroMK1 \<Rightarrow> MaschineMikroMK1" where
  "init s = s \<lparr> m_padValues := map (\<lambda>_. 0) (m_padValues s),
                m_padDown := map (\<lambda>_. False) (m_padDown s),
                m_buttonDown := map (\<lambda>_. False) (m_buttonDown s),
                m_buttonsActiveLow := -1,
                m_encoderInitialized := False,
                m_encoderValue := 0 \<rparr>"

section \<open>The pad decoder\<close>

text \<open>
  The body of the loop of \<open>processPadsLikeMk1Mk2\<close> for one pair of bytes, the low one
  first: the locals \<open>rawPad\<close> and \<open>value\<close>, computed in \<open>unsigned\<close>, then the update
  of the pad state. \<open>continue\<close> leaves the state as it is and emits nothing.
\<close>

definition rawPad :: "u8 \<Rightarrow> u8" where
  "rawPad hb = (let h = (ucast hb :: u32) in ucast (drop_bit 4 (h AND 0xF0)))"

definition pad_value :: "u8 \<Rightarrow> u8 \<Rightarrow> u32" where
  "pad_value lb hb =
    (let l = (ucast lb :: u32); h = (ucast hb :: u32) in (push_bit 8 (h AND 0x0F)) OR l)"

definition pad_pair :: "MaschineMikroMK1 \<Rightarrow> u8 \<Rightarrow> u8 \<Rightarrow> (MaschineMikroMK1 \<times> event list) option" where
  "pad_pair s lb hb =
    (if rawPad hb \<ge> kNumPads then Some (s, [])
     else do {
       pad \<leftarrow> elem_at kRawPadToLogical (unat (rawPad hb));
       let v = pad_value lb hb;
       vals \<leftarrow> array_set (m_padValues s) (unat pad) v;
       if v > kPadThreshold then do {
         down \<leftarrow> bitset_set (m_padDown s) (unat pad) True;
         Some (s \<lparr> m_padValues := vals, m_padDown := down \<rparr>,
               [KeyChanged (unat pad) (real (unat v) / 1024.0) False])
       } else do {
         was_down \<leftarrow> bitset_test (m_padDown s) (unat pad);
         if was_down then do {
           down \<leftarrow> bitset_set (m_padDown s) (unat pad) False;
           Some (s \<lparr> m_padValues := vals, m_padDown := down \<rparr>,
                 [KeyChanged (unat pad) 0.0 False])
         } else Some (s \<lparr> m_padValues := vals \<rparr>, [])
       }
     })"

text \<open>
  The loop \<open>for (size_t i = 1; (i + 1) < input_.size(); i += 2)\<close>, from index \<open>i\<close> on.
\<close>

function pads_loop :: "MaschineMikroMK1 \<Rightarrow> Transfer \<Rightarrow> nat \<Rightarrow> (MaschineMikroMK1 \<times> event list) option" where
  "pads_loop s input i =
    (if i + 1 < length input then
       (case elem_at input i of None \<Rightarrow> None | Some l \<Rightarrow>
        (case elem_at input (i + 1) of None \<Rightarrow> None | Some h \<Rightarrow>
         (case pad_pair s l h of None \<Rightarrow> None | Some (s', evs) \<Rightarrow>
          (case pads_loop s' input (i + 2) of None \<Rightarrow> None | Some (s'', evs') \<Rightarrow>
            Some (s'', evs @ evs')))))
     else Some (s, []))"
  by pat_completeness auto
termination
  by (relation "measure (\<lambda>(s, input, i). length input - i)") auto

declare pads_loop.simps [simp del]

definition processPadsLikeMk1Mk2 :: "MaschineMikroMK1 \<Rightarrow> Transfer \<Rightarrow> (MaschineMikroMK1 \<times> event list) option" where
  "processPadsLikeMk1Mk2 s input = pads_loop s input 1"

text \<open>
  The pad decoder as the specification words it: the bytes from offset 1 on are taken in
  pairs, a last byte without a partner is dropped, and the pairs are decoded in order.
\<close>

fun byte_pairs :: "'a list \<Rightarrow> ('a \<times> 'a) list" where
  "byte_pairs (l # h # rest) = (l, h) # byte_pairs rest"
| "byte_pairs _ = []"

fun decode_pairs :: "MaschineMikroMK1 \<Rightarrow> (u8 \<times> u8) list \<Rightarrow> (MaschineMikroMK1 \<times> event list) option" where
  "decode_pairs s [] = Some (s, [])"
| "decode_pairs s ((l, h) # ps) =
     (case pad_pair s l h of None \<Rightarrow> None | Some (s', evs) \<Rightarrow>
      (case decode_pairs s' ps of None \<Rightarrow> None | Some (s'', evs') \<Rightarrow> Some (s'', evs @ evs')))"

text \<open>The logical pad of a pair: the local \<open>pad\<close> of the loop body, as an index.\<close>

definition logical_pad :: "u8 \<Rightarrow> nat" where
  "logical_pad hb = unat (kRawPadToLogical ! unat (rawPad hb))"

section \<open>The button and encoder decoder\<close>

text \<open>
  \<open>input_.size() - 1\<close> is computed in \<open>size_t\<close> (64 bits): it wraps around for an empty
  buffer. The casts of an index to \<open>int\<close> leave every index below \<open>2 ^ 31\<close> as it is.
\<close>

definition size_t_pred :: "nat \<Rightarrow> nat" where
  "size_t_pred n = (n + (2 ^ 64 - 1)) mod 2 ^ 64"

text \<open>\<open>__builtin_popcount\<close>: the number of bits of the byte that are set.\<close>

definition popcount :: "u8 \<Rightarrow> nat" where
  "popcount b = length (filter (bit b) [0..<8])"

text \<open>
  The calibration loop \<open>for (size_t i = 0; i < nPayloadBytes - 1; ++i)\<close>, from \<open>i\<close> on,
  with its three accumulators; \<open>n\<close> is the bound \<open>nPayloadBytes - 1\<close> and \<open>ones\<close> is an
  \<open>unsigned\<close>.
\<close>

function calib_loop :: "Transfer \<Rightarrow> nat \<Rightarrow> nat \<Rightarrow> bool \<times> bool \<times> u32 \<Rightarrow> (bool \<times> bool \<times> u32) option" where
  "calib_loop input n i (allZero, allFF, ones) =
    (if i < n then
       (case elem_at input (1 + i) of None \<Rightarrow> None
        | Some b \<Rightarrow>
            calib_loop input n (i + 1)
              (allZero \<and> b = 0x00, allFF \<and> b = 0xFF, ones + of_nat (popcount b)))
     else Some (allZero, allFF, ones))"
  by pat_completeness auto
termination
  by (relation "measure (\<lambda>(input, n, i, acc). n - i)") auto

declare calib_loop.simps [simp del]

text \<open>The value given to \<open>m_buttonsActiveLow\<close> while it is negative.\<close>

definition calibrate :: "Transfer \<Rightarrow> nat \<Rightarrow> int option" where
  "calibrate input nPayloadBytes =
    (case calib_loop input (nPayloadBytes - 1) 0 (True, True, 0) of None \<Rightarrow> None
     | Some (allZero, allFF, ones) \<Rightarrow>
         Some (if allFF then 1
               else if allZero then 0
               else (let totalBits = (of_nat ((nPayloadBytes - 1) * 8) :: u32)
                     in if ones > totalBits div 2 then 1 else 0)))"

text \<open>
  The nested iteration that builds \<open>newDown\<close>: the bits \<open>bitIdx..7\<close> of one payload byte,
  and the payload bytes \<open>payloadByteIndex..3\<close>.
\<close>

function newDown_bits :: "int \<Rightarrow> u8 \<Rightarrow> nat \<Rightarrow> nat \<Rightarrow> bool list \<Rightarrow> bool list option" where
  "newDown_bits activeLow b payloadByteIndex bitIdx newDown =
    (if bitIdx < 8 then
       (let buttonIndex = payloadByteIndex * 8 + bitIdx;
            bitIsOne = ((drop_bit bitIdx b) AND 0x01 \<noteq> 0);
            pressed = (if activeLow > 0 then \<not> bitIsOne else bitIsOne)
        in case bitset_set newDown buttonIndex pressed of None \<Rightarrow> None
           | Some newDown' \<Rightarrow> newDown_bits activeLow b payloadByteIndex (bitIdx + 1) newDown')
     else Some newDown)"
  by pat_completeness auto
termination
  by (relation "measure (\<lambda>(activeLow, b, payloadByteIndex, bitIdx, newDown). 8 - bitIdx)") auto

declare newDown_bits.simps [simp del]

function newDown_bytes :: "int \<Rightarrow> Transfer \<Rightarrow> nat \<Rightarrow> bool list \<Rightarrow> bool list option" where
  "newDown_bytes activeLow input payloadByteIndex newDown =
    (if payloadByteIndex < 4 then
       (case elem_at input (1 + payloadByteIndex) of None \<Rightarrow> None
        | Some b \<Rightarrow>
            (case newDown_bits activeLow b payloadByteIndex 0 newDown of None \<Rightarrow> None
             | Some newDown' \<Rightarrow> newDown_bytes activeLow input (payloadByteIndex + 1) newDown'))
     else Some newDown)"
  by pat_completeness auto
termination
  by (relation "measure (\<lambda>(activeLow, input, payloadByteIndex, newDown). 4 - payloadByteIndex)") auto

declare newDown_bytes.simps [simp del]

text \<open>The encoder block, given the last payload byte \<open>raw\<close>.\<close>

definition encoder_step :: "MaschineMikroMK1 \<Rightarrow> u8 \<Rightarrow> bool \<Rightarrow> MaschineMikroMK1 \<times> event list" where
  "encoder_step s raw shiftPressed =
    (let current = raw AND 0x0F
     in if \<not> m_encoderInitialized s
        then (s \<lparr> m_encoderInitialized := True, m_encoderValue := current \<rparr>, [])
        else if current \<noteq> m_encoderValue s
        then (let increased = ((m_encoderValue s < current
                                \<or> (m_encoderValue s = 0x0F \<and> current = 0x00))
                               \<and> \<not> (m_encoderValue s = 0x0 \<and> current = 0x0F))
              in (s \<lparr> m_encoderValue := current \<rparr>, [EncoderChanged 0 increased shiftPressed]))
        else (s, []))"

text \<open>\<open>kButtonByBankBit[bank][bitIndex]\<close>, where \<open>bank\<close> is an \<open>int\<close>.\<close>

definition mapping_at :: "int \<Rightarrow> nat \<Rightarrow> (Button \<times> string) option" where
  "mapping_at bank bitIndex =
    (if bank < 0 then None
     else case elem_at kButtonByBankBit (nat bank) of None \<Rightarrow> None
          | Some row \<Rightarrow> elem_at row bitIndex)"

text \<open>
  The loop over the button bits, from \<open>buttonIndex\<close> on. The log line it writes has no
  effect on the state or on the events and is left out.
\<close>

function buttons_loop :: "bool list \<Rightarrow> bool list \<Rightarrow> bool \<Rightarrow> nat \<Rightarrow> event list option" where
  "buttons_loop newDown buttonDown shiftPressed buttonIndex =
    (if buttonIndex < kNumButtonBits then
       (case bitset_test newDown buttonIndex of None \<Rightarrow> None | Some n \<Rightarrow>
        (case bitset_test buttonDown buttonIndex of None \<Rightarrow> None | Some d \<Rightarrow>
          if n = d then buttons_loop newDown buttonDown shiftPressed (buttonIndex + 1)
          else
            (let payloadByteIndex = buttonIndex div 8;
                 bitIndex = buttonIndex mod 8;
                 bank = 4 - int payloadByteIndex
             in case mapping_at bank bitIndex of None \<Rightarrow> None | Some mapping \<Rightarrow>
                (case bitset_test newDown buttonIndex of None \<Rightarrow> None | Some pressed \<Rightarrow>
                 (case buttons_loop newDown buttonDown shiftPressed (buttonIndex + 1) of
                    None \<Rightarrow> None
                  | Some evs \<Rightarrow>
                      Some ((if fst mapping \<noteq> Unknown
                             then [ButtonChanged (fst mapping) pressed shiftPressed]
                             else []) @ evs))))))
     else Some [])"
  by pat_completeness auto
termination
  by (relation "measure (\<lambda>(newDown, buttonDown, shiftPressed, buttonIndex).
        kNumButtonBits - buttonIndex)") auto

declare buttons_loop.simps [simp del]

definition processButtonsReport :: "MaschineMikroMK1 \<Rightarrow> Transfer \<Rightarrow> (MaschineMikroMK1 \<times> event list) option" where
  "processButtonsReport s input =
    (let nPayloadBytes = size_t_pred (length input)
     in if nPayloadBytes < 5 then Some (s, [])
        else do {
          activeLow \<leftarrow> (if m_buttonsActiveLow s < 0 then calibrate input nPayloadBytes
                        else Some (m_buttonsActiveLow s));
          newDown \<leftarrow> newDown_bytes activeLow input 0 (replicate kNumButtonBits False);
          shiftPressed \<leftarrow> bitset_test newDown 0;
          raw \<leftarrow> elem_at input (1 + (nPayloadBytes - 1));
          let (s1, enc) = encoder_step (s \<lparr> m_buttonsActiveLow := activeLow \<rparr>) raw shiftPressed;
          evs \<leftarrow> buttons_loop newDown (m_buttonDown s1) shiftPressed 0;
          Some (s1 \<lparr> m_buttonDown := newDown \<rparr>, enc @ evs)
        })"

text \<open>
  The button decoder as the specification words it: the bytes examined by the
  calibration, the polarity they give, the pressed state of a bit, the new frame, and
  the events of one bit position.
\<close>

definition examined_bytes :: "Transfer \<Rightarrow> u8 list" where
  "examined_bytes input = butlast (tl input)"

definition majority_polarity :: "u8 list \<Rightarrow> int" where
  "majority_polarity bs =
    (if list_all (\<lambda>b. b = 0xFF) bs then 1
     else if list_all (\<lambda>b. b = 0x00) bs then 0
     else if sum_list (map popcount bs) > (8 * length bs) div 2 then 1 else 0)"

definition resolved_polarity :: "MaschineMikroMK1 \<Rightarrow> Transfer \<Rightarrow> int" where
  "resolved_polarity s input =
    (if m_buttonsActiveLow s < 0 then majority_polarity (examined_bytes input)
     else m_buttonsActiveLow s)"

definition pressed_bit :: "int \<Rightarrow> u8 \<Rightarrow> nat \<Rightarrow> bool" where
  "pressed_bit activeLow b k = (if activeLow > 0 then \<not> bit b k else bit b k)"

definition new_frame :: "int \<Rightarrow> Transfer \<Rightarrow> bool list" where
  "new_frame activeLow input =
    map (\<lambda>i. pressed_bit activeLow (input ! (1 + i div 8)) (i mod 8)) [0..<32]"

definition edge_events :: "bool list \<Rightarrow> bool list \<Rightarrow> bool \<Rightarrow> nat \<Rightarrow> event list" where
  "edge_events newDown buttonDown shiftPressed i =
    (if newDown ! i = buttonDown ! i then []
     else (let ident = fst (kButtonByBankBit ! (4 - i div 8) ! (i mod 8))
           in if ident = Unknown then []
              else [ButtonChanged ident (newDown ! i) shiftPressed]))"

section \<open>The report classifier\<close>

text \<open>
  \<open>processReport\<close>. The first byte is read only where the buffer holds data, so the read
  is in range.
\<close>

definition processReport :: "MaschineMikroMK1 \<Rightarrow> Transfer \<Rightarrow> (MaschineMikroMK1 \<times> event list) option" where
  "processReport s input =
    (if \<not> has_data input then Some (s, [])
     else if length input = 6 \<and> elem_at input 0 = Some 0x01 then processButtonsReport s input
     else if length input \<ge> 2 \<and> elem_at input 0 = Some 0x20 then processPadsLikeMk1Mk2 s input
     else if length input \<ge> 33 \<and> length input mod 2 = 1 then processPadsLikeMk1Mk2 s input
     else Some (s, []))"

text \<open>
  \<open>read\<close> and \<open>tick\<close>. \<open>readFromDeviceHandle\<close> belongs to the transport: its outcome is
  a parameter, \<open>None\<close> where the read fails and the buffer it filled otherwise. The first
  component of the result is the value returned.
\<close>

definition read :: "MaschineMikroMK1 \<Rightarrow> Transfer option \<Rightarrow> (bool \<times> MaschineMikroMK1 \<times> event list) option" where
  "read s handle =
    (case handle of
       None \<Rightarrow> Some (False, s, [])
     | Some input \<Rightarrow>
         if \<not> has_data input then Some (True, s, [])
         else map_option (\<lambda>(s', evs). (True, s', evs)) (processReport s input))"

definition tick :: "MaschineMikroMK1 \<Rightarrow> Transfer option \<Rightarrow> (bool \<times> MaschineMikroMK1 \<times> event list) option" where
  "tick s handle = read s handle"

section \<open>Words, bit fields and sizes\<close>

lemma unat_u8_less: "unat (b :: u8) < 256"
  using unsigned_less [of b, where ?'a = nat] by simp

lemma rawPad_eq: "rawPad hb = drop_bit 4 hb"
proof -
  have m: "(0xF0 :: u32) = push_bit 4 (mask 4)" by (simp add: mask_eq_exp_minus_1)
  show ?thesis
    unfolding rawPad_def Let_def m
    by (rule bit_word_eqI) (auto simp: bit_simps dest: bit_imp_le_length)
qed

lemma rawPad_lt: "unat (rawPad hb) < 16"
proof -
  have "unat (drop_bit 4 hb) = unat hb div 16"
    by (simp add: unat_drop_bit_eq drop_bit_eq_div unat_div)
  then show ?thesis using unat_u8_less [of hb] by (simp add: rawPad_eq)
qed

lemma nat_or_push_add:
  fixes x l :: nat
  assumes "l < 2 ^ k"
  shows "push_bit k x OR l = x * 2 ^ k + l"
proof -
  have "push_bit k x + l = push_bit k x OR l"
  proof (rule disjunctive_add)
    fix n
    show "\<not> bit (push_bit k x) n \<or> \<not> bit l n"
    proof (cases "n < k")
      case True then show ?thesis by (simp add: bit_push_bit_iff)
    next
      case False
      then have "l < 2 ^ n" using assms
        by (meson leI le_less_trans less_imp_le_nat one_le_numeral power_increasing less_le_trans)
      then have "\<not> bit l n" by (simp add: bit_iff_odd)
      then show ?thesis by simp
    qed
  qed
  then show ?thesis by (simp add: push_bit_eq_mult)
qed

lemma pad_value_unat: "unat (pad_value lb hb) = (unat hb mod 16) * 256 + unat lb"
proof -
  have m: "(0x0F :: u32) = mask 4" by (simp add: mask_eq_exp_minus_1)
  have a: "unat ((ucast hb :: u32) AND mask 4) = unat hb mod 16"
  proof -
    have "unat ((ucast hb :: u32) AND mask 4) = take_bit 4 (take_bit 32 (unat hb))"
      by (simp only: unsigned_take_bit_eq unsigned_ucast_eq flip: take_bit_eq_mask) simp
    then show ?thesis using unat_u8_less [of hb] by (simp add: take_bit_eq_mod)
  qed
  have b: "unat hb mod 16 < 16" by simp
  define X where "X = (ucast hb :: u32) AND mask 4"
  have c: "unat (ucast lb :: u32) = unat lb"
    using unat_u8_less [of lb] by (simp add: unsigned_ucast_eq take_bit_eq_mod)
  have "pad_value lb hb = push_bit 8 X OR ucast lb"
    unfolding pad_value_def Let_def m X_def ..
  then have "unat (pad_value lb hb) = unat (push_bit 8 X) OR unat (ucast lb :: u32)"
    by (simp only: unsigned_or_eq)
  also have "unat (push_bit 8 X) = take_bit 32 (push_bit 8 (unat X))"
    by (simp only: unsigned_push_bit_eq) simp
  finally have "unat (pad_value lb hb) = take_bit 32 (push_bit 8 (unat hb mod 16)) OR unat lb"
    using a c by (simp only: X_def)
  also have "take_bit 32 (push_bit 8 (unat hb mod 16)) = push_bit 8 (unat hb mod 16)"
    using b by (simp add: take_bit_eq_mod push_bit_eq_mult)
  also have "push_bit 8 (unat hb mod 16) OR unat lb = (unat hb mod 16) * 2 ^ 8 + unat lb"
    by (rule nat_or_push_add) (use unat_u8_less [of lb] in simp)
  finally show ?thesis by simp
qed

lemma pad_value_le: "pad_value lb hb \<le> 4095"
proof -
  have "unat (pad_value lb hb) \<le> 4095"
    using unat_u8_less [of lb] by (simp add: pad_value_unat)
  then show ?thesis by (simp add: word_le_nat_alt)
qed

section \<open>Properties of the pad decoder\<close>

lemma kRawPadToLogical_length: "length kRawPadToLogical = 16"
  by (simp add: kRawPadToLogical_def)

lemma kRawPadToLogical_entries: "list_all (\<lambda>p. unat p < 16) kRawPadToLogical"
  by (simp add: kRawPadToLogical_def)

lemma logical_pad_lt: "logical_pad hb < 16"
  using kRawPadToLogical_entries rawPad_lt [of hb]
  by (simp add: logical_pad_def list_all_length kRawPadToLogical_length)

lemma rawPad_not_ge: "\<not> rawPad hb \<ge> kNumPads"
  using rawPad_lt [of hb] by (simp add: kNumPads_def word_le_nat_alt)

lemma pad_pair_eq:
  assumes "wf_state s"
  shows "pad_pair s lb hb =
    Some (s \<lparr> m_padValues := (m_padValues s)[logical_pad hb := pad_value lb hb],
              m_padDown := (if pad_value lb hb > kPadThreshold then (m_padDown s)[logical_pad hb := True]
                            else if m_padDown s ! logical_pad hb then (m_padDown s)[logical_pad hb := False]
                            else m_padDown s) \<rparr>,
          if pad_value lb hb > kPadThreshold
          then [KeyChanged (logical_pad hb) (real (unat (pad_value lb hb)) / 1024) False]
          else if m_padDown s ! logical_pad hb then [KeyChanged (logical_pad hb) 0 False]
          else [])"
proof -
  have r: "unat (rawPad hb) < length kRawPadToLogical"
    using rawPad_lt [of hb] by (simp add: kRawPadToLogical_length)
  have p: "logical_pad hb < length (m_padValues s)" "logical_pad hb < length (m_padDown s)"
    using assms logical_pad_lt [of hb] by (simp_all add: wf_state_def kNumPads_def)
  show ?thesis
    using r p rawPad_not_ge [of hb]
    by (simp add: pad_pair_def elem_at_def array_set_def bitset_set_def bitset_test_def
        Let_def logical_pad_def [symmetric])
qed

lemma pad_pair_wf:
  assumes "wf_state s" "pad_pair s lb hb = Some (s', evs)"
  shows "wf_state s'"
  using assms(2) assms(1) unfolding pad_pair_eq [OF assms(1)]
  by (auto simp: wf_state_def split: if_splits)

lemma pad_pair_frame:
  assumes "pad_pair s lb hb = Some (s', evs)"
  shows "m_buttonDown s' = m_buttonDown s \<and> m_buttonsActiveLow s' = m_buttonsActiveLow s
       \<and> m_encoderInitialized s' = m_encoderInitialized s \<and> m_encoderValue s' = m_encoderValue s"
  using assms
  by (auto simp: pad_pair_def Let_def split: if_splits Option.bind_splits)

lemma pads_loop_frame:
  "pads_loop s input i = Some (s', evs) \<Longrightarrow>
     m_buttonDown s' = m_buttonDown s \<and> m_buttonsActiveLow s' = m_buttonsActiveLow s
   \<and> m_encoderInitialized s' = m_encoderInitialized s \<and> m_encoderValue s' = m_encoderValue s"
proof (induction s input i arbitrary: s' evs rule: pads_loop.induct)
  case (1 s input i)
  show ?case
  proof (cases "i + 1 < length input")
    case False
    with "1.prems" show ?thesis by (subst (asm) pads_loop.simps) simp
  next
    case True
    from "1.prems" True obtain l h s1 e1 e2 where
      l: "elem_at input i = Some l" and h: "elem_at input (i + 1) = Some h"
      and p: "pad_pair s l h = Some (s1, e1)" and r: "pads_loop s1 input (i + 2) = Some (s', e2)"
      by (subst (asm) pads_loop.simps) (auto split: option.splits)
    from "1.IH" [OF True l h p refl r] pad_pair_frame [OF p] show ?thesis by simp
  qed
qed

lemma pads_loop_total:
  "wf_state s \<Longrightarrow> \<exists>s' evs. pads_loop s input i = Some (s', evs) \<and> wf_state s'"
proof (induction s input i rule: pads_loop.induct)
  case (1 s input i)
  show ?case
  proof (cases "i + 1 < length input")
    case False
    with "1.prems" show ?thesis by (subst pads_loop.simps) simp
  next
    case True
    then have l: "elem_at input i = Some (input ! i)"
      and h: "elem_at input (i + 1) = Some (input ! (i + 1))"
      by (simp_all add: elem_at_def)
    obtain s1 e1 where p: "pad_pair s (input ! i) (input ! (i + 1)) = Some (s1, e1)"
      using pad_pair_eq [OF "1.prems"] by blast
    have w: "wf_state s1" by (rule pad_pair_wf [OF "1.prems" p])
    from "1.IH" [OF True l h p refl w] obtain s2 e2 where
      r: "pads_loop s1 input (i + 2) = Some (s2, e2)" and w2: "wf_state s2" by blast
    show ?thesis
      using True l h p r w2 by (subst pads_loop.simps) simp
  qed
qed

lemma pads_loop_pairs: "pads_loop s input i = decode_pairs s (byte_pairs (drop i input))"
proof (induction s input i rule: pads_loop.induct)
  case (1 s input i)
  show ?case
  proof (cases "i + 1 < length input")
    case False
    then have "drop i input = [] \<or> (\<exists>x. drop i input = [x])"
      by (cases "drop i input"; cases "tl (drop i input)") (auto simp: drop_Suc dest: arg_cong [where f = length])
    with False show ?thesis by (subst pads_loop.simps) auto
  next
    case True
    then have l: "elem_at input i = Some (input ! i)"
      and h: "elem_at input (i + 1) = Some (input ! (i + 1))"
      by (simp_all add: elem_at_def)
    have d: "drop i input = input ! i # input ! (i + 1) # drop (i + 2) input"
      using True by (simp add: Cons_nth_drop_Suc)
    show ?thesis
    proof (cases "pad_pair s (input ! i) (input ! (i + 1))")
      case None
      with True l h d show ?thesis by (subst pads_loop.simps) simp
    next
      case (Some r)
      obtain s1 e1 where r: "r = (s1, e1)" by (cases r)
      from "1.IH" [OF True l h Some [unfolded r] refl]
      show ?thesis using True l h d Some r by (subst pads_loop.simps) simp
    qed
  qed
qed

lemma wf_new_device: "wf_state new_device"
  by (simp add: wf_state_def new_device_def kNumPads_def kNumButtonBits_def)

lemma list_update_same_value: "xs ! i = v \<Longrightarrow> xs[i := v] = xs"
  by (metis list_update_id)

lemma replicate_update_same: "(replicate n x)[i := x] = replicate n x"
  by (induction n arbitrary: i) (auto split: nat.splits)

lemma pad_pair_values:
  "wf_state s \<Longrightarrow> map_option (m_padValues \<circ> fst) (pad_pair s lb hb)
     = Some ((m_padValues s)[logical_pad hb := pad_value lb hb])"
  by (simp add: pad_pair_eq)

lemma pad_pair_events:
  "wf_state s \<Longrightarrow> map_option snd (pad_pair s lb hb)
     = Some (if pad_value lb hb > kPadThreshold
             then [KeyChanged (logical_pad hb) (real (unat (pad_value lb hb)) / 1024) False]
             else if m_padDown s ! logical_pad hb then [KeyChanged (logical_pad hb) 0 False]
             else [])"
  by (simp add: pad_pair_eq)

lemma pad_pair_down:
  "wf_state s \<Longrightarrow> map_option (m_padDown \<circ> fst) (pad_pair s lb hb)
     = Some ((m_padDown s)[logical_pad hb := (pad_value lb hb > kPadThreshold)])"
  by (simp add: pad_pair_eq list_update_same_value)

lemma rawPad_unat: "unat (rawPad hb) = unat hb div 16"
  by (simp add: rawPad_eq unat_drop_bit_eq drop_bit_eq_div unat_div)

lemma decode_run:
  "decode_pairs new_device [(0, 0), (0xFA, 0), (0xFA, 0), (0x96, 0), (0x32, 0)]
   = Some (new_device \<lparr> m_padValues := (m_padValues new_device)[12 := 50] \<rparr>,
       [KeyChanged 12 (250 / 1024) False, KeyChanged 12 (250 / 1024) False,
        KeyChanged 12 0 False])"
  by (simp add: elem_at_def pad_pair_def rawPad_def pad_value_def
     kNumPads_def kRawPadToLogical_def array_set_def bitset_set_def bitset_test_def kPadThreshold_def
     new_device_def replicate_update_same)

section \<open>Properties of the button and encoder decoder\<close>

lemma bit_is_one: "((drop_bit k (b :: u8)) AND 0x01 \<noteq> 0) = bit b k"
  by (simp add: bit_iff_odd_drop_bit and_one_eq odd_iff_mod_2_eq_one)

lemma newDown_bits_spec:
  "k \<le> 8 \<Longrightarrow> j * 8 + 8 \<le> length nd \<Longrightarrow>
   \<exists>r. newDown_bits pol b j k nd = Some r \<and> length r = length nd
     \<and> (\<forall>i < length nd. r ! i =
          (if j * 8 + k \<le> i \<and> i < j * 8 + 8 then pressed_bit pol b (i - j * 8) else nd ! i))"
proof (induction pol b j k nd rule: newDown_bits.induct)
  case (1 pol b j k nd)
  show ?case
  proof (cases "k < 8")
    case False
    with "1.prems" have "k = 8" by simp
    then show ?thesis by (subst newDown_bits.simps) auto
  next
    case True
    define nd' where "nd' = nd[j * 8 + k := pressed_bit pol b k]"
    have s: "bitset_set nd (j * 8 + k) (if 0 < pol then \<not> (drop_bit k b AND 1 \<noteq> 0) else drop_bit k b AND 1 \<noteq> 0) = Some nd'"
      using True "1.prems" unfolding bit_is_one [simplified]
      by (simp add: bitset_set_def array_set_def nd'_def pressed_bit_def)
    have "\<exists>r. newDown_bits pol b j (k + 1) nd' = Some r \<and> length r = length nd'
       \<and> (\<forall>i < length nd'. r ! i =
          (if j * 8 + (k + 1) \<le> i \<and> i < j * 8 + 8 then pressed_bit pol b (i - j * 8) else nd' ! i))"
      using True "1.prems"
      by (intro "1.IH" [OF True refl refl refl s [simplified]]) (simp_all add: nd'_def)
    then obtain r where r: "newDown_bits pol b j (k + 1) nd' = Some r" "length r = length nd"
      and ri: "\<And>i. i < length nd \<Longrightarrow> r ! i =
          (if j * 8 + (k + 1) \<le> i \<and> i < j * 8 + 8 then pressed_bit pol b (i - j * 8) else nd' ! i)"
      by (auto simp: nd'_def)
    have "newDown_bits pol b j k nd = Some r"
      using True s r(1) by (subst newDown_bits.simps) (simp add: Let_def)
    moreover have "\<forall>i < length nd. r ! i =
          (if j * 8 + k \<le> i \<and> i < j * 8 + 8 then pressed_bit pol b (i - j * 8) else nd ! i)"
    proof (intro allI impI)
      fix i assume i: "i < length nd"
      show "r ! i = (if j * 8 + k \<le> i \<and> i < j * 8 + 8 then pressed_bit pol b (i - j * 8) else nd ! i)"
        using ri [OF i] i True by (cases "i = j * 8 + k") (auto simp: nd'_def)
    qed
    ultimately show ?thesis using r(2) by blast
  qed
qed

lemma newDown_bytes_spec:
  "j \<le> 4 \<Longrightarrow> length nd = 32 \<Longrightarrow> 5 \<le> length input \<Longrightarrow>
   \<exists>r. newDown_bytes pol input j nd = Some r \<and> length r = 32
     \<and> (\<forall>i < 32. r ! i =
          (if j * 8 \<le> i then pressed_bit pol (input ! (1 + i div 8)) (i mod 8) else nd ! i))"
proof (induction pol input j nd rule: newDown_bytes.induct)
  case (1 pol input j nd)
  show ?case
  proof (cases "j < 4")
    case False
    with "1.prems" have "j = 4" by simp
    then show ?thesis using "1.prems" by (subst newDown_bytes.simps) auto
  next
    case True
    have e: "elem_at input (1 + j) = Some (input ! (1 + j))"
      using True "1.prems" by (simp add: elem_at_def)
    from newDown_bits_spec [of 0 j nd pol "input ! (1 + j)"] True "1.prems"
    obtain nd' where b: "newDown_bits pol (input ! (1 + j)) j 0 nd = Some nd'"
      and l: "length nd' = 32"
      and ni: "\<And>i. i < 32 \<Longrightarrow> nd' ! i =
          (if j * 8 \<le> i \<and> i < j * 8 + 8 then pressed_bit pol (input ! (1 + j)) (i - j * 8) else nd ! i)"
      by auto
    from "1.IH" [OF True e b _ l "1.prems"(3)] True
    obtain r where r: "newDown_bytes pol input (j + 1) nd' = Some r" "length r = 32"
      and ri: "\<And>i. i < 32 \<Longrightarrow> r ! i =
          (if (j + 1) * 8 \<le> i then pressed_bit pol (input ! (1 + i div 8)) (i mod 8) else nd' ! i)"
      by auto
    have "newDown_bytes pol input j nd = Some r"
      using True e b r(1) by (subst newDown_bytes.simps) simp
    moreover have "\<forall>i < 32. r ! i =
          (if j * 8 \<le> i then pressed_bit pol (input ! (1 + i div 8)) (i mod 8) else nd ! i)"
    proof (intro allI impI)
      fix i :: nat assume i: "i < 32"
      show "r ! i = (if j * 8 \<le> i then pressed_bit pol (input ! (1 + i div 8)) (i mod 8) else nd ! i)"
      proof (cases "j * 8 \<le> i \<and> i < j * 8 + 8")
        case True
        then have d: "i div 8 = j" by arith
        then have "i mod 8 = i - j * 8" by (simp add: modulo_nat_def)
        with d True ri [OF i] ni [OF i] show ?thesis by simp
      next
        case False
        with ri [OF i] ni [OF i] show ?thesis by auto
      qed
    qed
    ultimately show ?thesis using r(2) by blast
  qed
qed

lemma newDown_bytes_frame:
  assumes "5 \<le> length input"
  shows "newDown_bytes pol input 0 (replicate kNumButtonBits False) = Some (new_frame pol input)"
proof -
  from newDown_bytes_spec [of 0 "replicate kNumButtonBits False" input pol] assms
  obtain r where r: "newDown_bytes pol input 0 (replicate kNumButtonBits False) = Some r"
    and l: "length r = 32"
    and ri: "\<And>i. i < 32 \<Longrightarrow> r ! i = pressed_bit pol (input ! (1 + i div 8)) (i mod 8)"
    by (auto simp: kNumButtonBits_def)
  have "r = new_frame pol input"
    using l ri by (simp add: list_eq_iff_nth_eq new_frame_def)
  with r show ?thesis by simp
qed

lemma kButtonByBankBit_rows: "length kButtonByBankBit = 5 \<and> list_all (\<lambda>row. length row = 8) kButtonByBankBit"
  by (simp add: kButtonByBankBit_def)

lemma mapping_at_bank:
  assumes "i < 32"
  shows "mapping_at (4 - int (i div 8)) (i mod 8) = Some (kButtonByBankBit ! (4 - i div 8) ! (i mod 8))"
proof -
  have d: "i div 8 < 4" using assms by simp
  then have n: "nat (4 - int (i div 8)) = 4 - i div 8" by simp
  have r: "length (kButtonByBankBit ! (4 - i div 8)) = 8"
    using kButtonByBankBit_rows by (simp add: list_all_length)
  show ?thesis
    using d kButtonByBankBit_rows r by (simp add: mapping_at_def n elem_at_def)
qed

lemma buttons_loop_spec:
  "length nd = 32 \<Longrightarrow> length old = 32 \<Longrightarrow> i \<le> 32 \<Longrightarrow>
   buttons_loop nd old shift i = Some (concat (map (edge_events nd old shift) [i..<32]))"
proof (induction nd old shift i rule: buttons_loop.induct)
  case (1 nd old shift i)
  show ?case
  proof (cases "i < 32")
    case False
    with "1.prems" show ?thesis by (subst buttons_loop.simps) (simp add: kNumButtonBits_def)
  next
    case True
    have t: "bitset_test nd i = Some (nd ! i)" "bitset_test old i = Some (old ! i)"
      using True "1.prems" by (simp_all add: bitset_test_def elem_at_def)
    have u: "[i..<32] = i # [i + 1..<32]" using True by (simp add: upt_conv_Cons)
    show ?thesis
    proof (cases "nd ! i = old ! i")
      case same: True
      from "1.IH"(1) [OF _ t(1) t(2) same "1.prems"(1,2)] True
      have "buttons_loop nd old shift (i + 1) = Some (concat (map (edge_events nd old shift) [i + 1..<32]))"
        by (simp add: kNumButtonBits_def)
      then show ?thesis
        using True t same u by (subst buttons_loop.simps) (simp add: kNumButtonBits_def edge_events_def)
    next
      case diff: False
      note m = mapping_at_bank [OF True]
      from "1.IH"(2) [OF _ t(1) t(2) diff refl refl refl m t(1) "1.prems"(1,2)] True
      have "buttons_loop nd old shift (i + 1) = Some (concat (map (edge_events nd old shift) [i + 1..<32]))"
        by (simp add: kNumButtonBits_def)
      then show ?thesis
        using True t diff u m
        by (subst buttons_loop.simps) (simp add: kNumButtonBits_def edge_events_def Let_def)
    qed
  qed
qed

lemma popcount_le: "popcount b \<le> 8"
proof -
  have "length (filter (bit b) [0..<8]) \<le> length [0..<8]" by (rule length_filter_le)
  then show ?thesis by (simp add: popcount_def)
qed

lemma sum_popcount_le: "sum_list (map popcount bs) \<le> 8 * length bs"
  by (induction bs) (use popcount_le in \<open>auto intro: add_mono\<close>)

lemma unat_of_nat_u32: "x < 2 ^ 32 \<Longrightarrow> unat (of_nat x :: u32) = x"
  by (simp add: unat_of_nat take_bit_nat_eq_self_iff)

lemma calib_loop_spec:
  "i \<le> n \<Longrightarrow> n < length input \<Longrightarrow>
   calib_loop input n i (z, f, c) =
     Some (z \<and> list_all (\<lambda>b. b = 0x00) (take (n - i) (drop (1 + i) input)),
           f \<and> list_all (\<lambda>b. b = 0xFF) (take (n - i) (drop (1 + i) input)),
           c + of_nat (sum_list (map popcount (take (n - i) (drop (1 + i) input)))))"
proof (induction input n i "(z, f, c)" arbitrary: z f c rule: calib_loop.induct)
  case (1 input n i z f c)
  show ?case
  proof (cases "i < n")
    case False
    with "1.prems" show ?thesis by (subst calib_loop.simps) simp
  next
    case True
    have e: "elem_at input (1 + i) = Some (input ! (1 + i))"
      using True "1.prems" by (simp add: elem_at_def)
    have n: "n - i = Suc (n - (i + 1))" using True by simp
    have d: "drop (1 + i) input = input ! (1 + i) # drop (1 + (i + 1)) input"
      using True "1.prems" by (simp add: Cons_nth_drop_Suc)
    have seg: "take (n - i) (drop (1 + i) input)
        = input ! (1 + i) # take (n - (i + 1)) (drop (1 + (i + 1)) input)"
      by (subst n, subst d) simp
    from "1.hyps" [OF True e] True "1.prems"
    have "calib_loop input n (i + 1)
            (z \<and> input ! (1 + i) = 0x00, f \<and> input ! (1 + i) = 0xFF,
             c + of_nat (popcount (input ! (1 + i))))
          = Some ((z \<and> input ! (1 + i) = 0x00)
                    \<and> list_all (\<lambda>b. b = 0x00) (take (n - (i + 1)) (drop (1 + (i + 1)) input)),
                  (f \<and> input ! (1 + i) = 0xFF)
                    \<and> list_all (\<lambda>b. b = 0xFF) (take (n - (i + 1)) (drop (1 + (i + 1)) input)),
                  c + of_nat (popcount (input ! (1 + i)))
                    + of_nat (sum_list (map popcount (take (n - (i + 1)) (drop (1 + (i + 1)) input)))))"
      by simp
    then show ?thesis
      using True e unfolding seg
      by (subst calib_loop.simps) (simp add: conj_assoc add.assoc)
  qed
qed

lemma examined_bytes_take:
  "2 \<le> length input \<Longrightarrow> take (length input - 2) (drop 1 input) = examined_bytes input"
  by (simp add: examined_bytes_def butlast_conv_take drop_Suc numeral_2_eq_2)

lemma calibrate_spec:
  assumes "6 \<le> length input" "length input < 2 ^ 28"
  shows "calibrate input (length input - 1) = Some (majority_polarity (examined_bytes input))"
proof -
  define ex where "ex = examined_bytes input"
  define S where "S = sum_list (map popcount ex)"
  have len: "length ex = length input - 2"
    using assms by (simp add: ex_def examined_bytes_def)
  have n2: "length input - 1 - 1 = length input - 2" by simp
  have seg: "take (length input - 2 - 0) (drop (1 + 0) input) = ex"
    using examined_bytes_take [of input] assms by (simp add: ex_def)
  have "calib_loop input (length input - 2) 0 (True, True, 0)
      = Some (True \<and> list_all (\<lambda>b. b = 0x00) ex, True \<and> list_all (\<lambda>b. b = 0xFF) ex, 0 + of_nat S)"
    unfolding S_def seg [symmetric]
    by (rule calib_loop_spec) (use assms in simp_all)
  then have l: "calib_loop input (length input - 1 - 1) 0 (True, True, 0)
      = Some (list_all (\<lambda>b. b = 0x00) ex, list_all (\<lambda>b. b = 0xFF) ex, of_nat S)"
    unfolding n2 by simp
  have Sle: "S \<le> 8 * length ex" unfolding S_def by (rule sum_popcount_le)
  have T: "8 * length ex < 2 ^ 31" using assms len by simp
  have uS: "unat (of_nat S :: u32) = S"
    by (rule unat_of_nat_u32) (use Sle T in simp)
  have uT: "unat ((of_nat ((length input - 1 - 1) * 8) :: u32) div 2) = (8 * length ex) div 2"
  proof -
    have a: "unat (of_nat (8 * length ex) :: u32) = 8 * length ex"
      by (rule unat_of_nat_u32) (use T in simp)
    have eqT: "(length input - 1 - 1) * 8 = 8 * length ex" using len by simp
    have "unat ((of_nat (8 * length ex) :: u32) div 2) = (8 * length ex) div unat (2 :: u32)"
      by (simp only: unat_div a)
    then show ?thesis unfolding eqT by simp
  qed
  have cmp: "((of_nat ((length input - 1 - 1) * 8) :: u32) div 2 < of_nat S) = ((8 * length ex) div 2 < S)"
    by (simp only: word_less_nat_alt uS uT)
  have "calibrate input (length input - 1)
      = Some (if list_all (\<lambda>b. b = 0xFF) ex then 1
              else if list_all (\<lambda>b. b = 0x00) ex then 0
              else if (of_nat ((length input - 1 - 1) * 8) :: u32) div 2 < of_nat S then 1 else 0)"
    unfolding calibrate_def l by (simp only: option.case prod.case Let_def)
  also have "\<dots> = Some (majority_polarity ex)"
    unfolding cmp unfolding majority_polarity_def S_def ..
  finally show ?thesis unfolding ex_def .
qed

lemma size_t_pred_eq: "0 < n \<Longrightarrow> n < 2 ^ 64 \<Longrightarrow> size_t_pred n = n - 1"
proof -
  assume a: "0 < n" "n < 2 ^ 64"
  have "n + (2 ^ 64 - 1) = (n - 1) + 1 * 2 ^ 64" using a by simp
  then have "(n + (2 ^ 64 - 1)) mod 2 ^ 64 = (n - 1) mod 2 ^ 64"
    by (simp only: mod_mult_self1)
  then show ?thesis using a by (simp add: size_t_pred_def)
qed

lemma length_new_frame: "length (new_frame pol input) = 32"
  by (simp add: new_frame_def)

lemma encoder_step_frame:
  assumes "encoder_step s raw shift = (s1, enc)"
  shows "m_padValues s1 = m_padValues s \<and> m_padDown s1 = m_padDown s
       \<and> m_buttonDown s1 = m_buttonDown s \<and> m_buttonsActiveLow s1 = m_buttonsActiveLow s"
  using assms by (auto simp: encoder_step_def Let_def split: if_splits)

lemma processButtonsReport_eq:
  assumes wf: "wf_state s" and len: "6 \<le> length input" "length input < 2 ^ 28"
    and pol: "pol = (if m_buttonsActiveLow s < 0 then majority_polarity (examined_bytes input)
                     else m_buttonsActiveLow s)"
    and nd: "nd = new_frame pol input"
    and enc: "encoder_step (s \<lparr> m_buttonsActiveLow := pol \<rparr>) (last input) (nd ! 0) = (s1, enc)"
  shows "processButtonsReport s input =
    Some (s1 \<lparr> m_buttonDown := nd \<rparr>,
          enc @ concat (map (edge_events nd (m_buttonDown s) (nd ! 0)) [0..<32]))"
proof -
  define N where "N = length input - 1"
  have n: "size_t_pred (length input) = N"
    unfolding N_def by (rule size_t_pred_eq) (use len in auto)
  have g: "\<not> N < 5" using len by (simp add: N_def)
  have c: "(if m_buttonsActiveLow s < 0 then calibrate input N
            else Some (m_buttonsActiveLow s)) = Some pol"
    using calibrate_spec [OF len] by (simp add: pol N_def)
  have f: "newDown_bytes pol input 0 (replicate kNumButtonBits False) = Some nd"
    using newDown_bytes_frame [of input pol] len by (simp add: nd)
  have t: "bitset_test nd 0 = Some (nd ! 0)"
    by (simp add: bitset_test_def elem_at_def nd length_new_frame)
  have r: "elem_at input (1 + (N - 1)) = Some (last input)"
  proof -
    have i: "1 + (N - 1) = length input - 1" using len by (simp add: N_def)
    have "input \<noteq> []" using len by auto
    then show ?thesis unfolding i using len by (simp add: elem_at_def last_conv_nth)
  qed
  have b: "m_buttonDown s1 = m_buttonDown s"
    using encoder_step_frame [OF enc] by simp
  have l: "buttons_loop nd (m_buttonDown s) (nd ! 0) 0
      = Some (concat (map (edge_events nd (m_buttonDown s) (nd ! 0)) [0..<32]))"
    using wf by (intro buttons_loop_spec) (simp_all add: nd length_new_frame wf_state_def kNumButtonBits_def)
  show ?thesis
    by (simp only: processButtonsReport_def n Let_def if_not_P [OF g] c f t r enc b l
        Option.bind.simps prod.case)
qed

lemma processButtonsReport_short:
  assumes "0 < length input" "length input < 6"
  shows "processButtonsReport s input = Some (s, [])"
proof -
  have "size_t_pred (length input) = length input - 1"
    by (rule size_t_pred_eq) (use assms in auto)
  then have "size_t_pred (length input) < 5" using assms by arith
  then show ?thesis by (simp add: processButtonsReport_def Let_def)
qed

lemma processButtonsReport_frame:
  assumes "processButtonsReport s input = Some (s', evs)"
  shows "m_padValues s' = m_padValues s \<and> m_padDown s' = m_padDown s"
proof (cases "size_t_pred (length input) < 5")
  case True
  with assms show ?thesis by (simp add: processButtonsReport_def Let_def)
next
  case False
  with assms obtain pol raw sh s1 enc nd where
    e: "encoder_step (s \<lparr> m_buttonsActiveLow := pol \<rparr>) raw sh = (s1, enc)"
    and s': "s' = s1 \<lparr> m_buttonDown := nd \<rparr>"
    by (auto simp: processButtonsReport_def Let_def split: Option.bind_splits prod.splits)
  from encoder_step_frame [OF e] s' show ?thesis by simp
qed

lemma processButtonsReport_polarity:
  assumes "processButtonsReport s input = Some (s', evs)" "0 \<le> m_buttonsActiveLow s"
  shows "m_buttonsActiveLow s' = m_buttonsActiveLow s"
proof (cases "size_t_pred (length input) < 5")
  case True
  with assms show ?thesis by (simp add: processButtonsReport_def Let_def)
next
  case False
  with assms obtain raw sh s1 enc nd where
    e: "encoder_step (s \<lparr> m_buttonsActiveLow := m_buttonsActiveLow s \<rparr>) raw sh = (s1, enc)"
    and s': "s' = s1 \<lparr> m_buttonDown := nd \<rparr>"
    by (auto simp: processButtonsReport_def Let_def split: Option.bind_splits prod.splits)
  from encoder_step_frame [OF e] s' show ?thesis by simp
qed

lemma processButtonsReport_total:
  assumes "wf_state s" "0 < length input" "length input < 2 ^ 28"
  shows "\<exists>s' evs. processButtonsReport s input = Some (s', evs) \<and> wf_state s'"
proof (cases "length input < 6")
  case True
  with assms processButtonsReport_short [of input s] show ?thesis by simp
next
  case False
  define pol where "pol = (if m_buttonsActiveLow s < 0 then majority_polarity (examined_bytes input)
                     else m_buttonsActiveLow s)"
  define nd where "nd = new_frame pol input"
  obtain s1 enc where e: "encoder_step (s \<lparr> m_buttonsActiveLow := pol \<rparr>) (last input) (nd ! 0) = (s1, enc)"
    by (cases "encoder_step (s \<lparr> m_buttonsActiveLow := pol \<rparr>) (last input) (nd ! 0)")
  from False have "6 \<le> length input" by simp
  note eq = processButtonsReport_eq [OF assms(1) this assms(3) pol_def nd_def e]
  have "wf_state (s1 \<lparr> m_buttonDown := nd \<rparr>)"
    using encoder_step_frame [OF e] assms(1)
    by (simp add: wf_state_def nd_def length_new_frame kNumButtonBits_def)
  with eq show ?thesis by blast
qed

lemma edge_events_kind:
  "filter is_encoder_event (edge_events nd old sh i) = []
   \<and> filter is_button_event (edge_events nd old sh i) = edge_events nd old sh i"
  by (simp add: edge_events_def Let_def)

lemma edges_kind:
  "filter is_encoder_event (concat (map (edge_events nd old sh) xs)) = []
   \<and> filter is_button_event (concat (map (edge_events nd old sh) xs))
       = concat (map (edge_events nd old sh) xs)"
  by (induction xs) (simp_all add: edge_events_kind)

lemma encoder_step_kind:
  "filter is_button_event (snd (encoder_step s raw sh)) = []
   \<and> filter is_encoder_event (snd (encoder_step s raw sh)) = snd (encoder_step s raw sh)"
  by (simp add: encoder_step_def Let_def)

lemma new_frame_nth:
  "i < 32 \<Longrightarrow> new_frame pol input ! i = pressed_bit pol (input ! (1 + i div 8)) (i mod 8)"
  by (simp add: new_frame_def)

text \<open>The result of the decoder on a report of at least six bytes, in one equation.\<close>

lemma processButtonsReport_result:
  assumes "wf_state s" "6 \<le> length input" "length input < 2 ^ 28"
  shows "processButtonsReport s input =
    Some ((fst (encoder_step (s \<lparr> m_buttonsActiveLow := resolved_polarity s input \<rparr>)
                 (last input) (new_frame (resolved_polarity s input) input ! 0)))
            \<lparr> m_buttonDown := new_frame (resolved_polarity s input) input \<rparr>,
          snd (encoder_step (s \<lparr> m_buttonsActiveLow := resolved_polarity s input \<rparr>)
                 (last input) (new_frame (resolved_polarity s input) input ! 0))
          @ concat (map (edge_events (new_frame (resolved_polarity s input) input) (m_buttonDown s)
                           (new_frame (resolved_polarity s input) input ! 0)) [0..<32]))"
  by (rule processButtonsReport_eq [OF assms resolved_polarity_def refl]) simp

lemma upt_0_32: "[0..<32] = [0, 1, 2, 3, 4, 5, 6, 7, 8, 9, 10, 11, 12, 13, 14, 15, 16, 17, 18, 19,
   20, 21, 22, 23, 24, 25, 26, 27, 28, 29, 30, 31 :: nat]"
  by (simp add: upt_conv_Cons)

lemma wf_update:
  "wf_state (s \<lparr> m_buttonsActiveLow := a \<rparr>) = wf_state s"
  "wf_state (s \<lparr> m_encoderInitialized := b \<rparr>) = wf_state s"
  "wf_state (s \<lparr> m_encoderValue := c \<rparr>) = wf_state s"
  by (simp_all add: wf_state_def)

lemma encoder_step_fst:
  "m_padValues (fst (encoder_step s raw sh)) = m_padValues s"
  "m_padDown (fst (encoder_step s raw sh)) = m_padDown s"
  "m_buttonDown (fst (encoder_step s raw sh)) = m_buttonDown s"
  "m_buttonsActiveLow (fst (encoder_step s raw sh)) = m_buttonsActiveLow s"
  using encoder_step_frame [of s raw sh "fst (encoder_step s raw sh)" "snd (encoder_step s raw sh)"]
  by simp_all

lemma examined_bytes_nth:
  assumes "2 \<le> length input"
  shows "examined_bytes input = map (\<lambda>i. input ! i) [1..<length input - 1]"
proof (rule nth_equalityI)
  show "length (examined_bytes input) = length (map (\<lambda>i. input ! i) [1..<length input - 1])"
    using assms by (simp add: examined_bytes_def)
next
  fix i assume "i < length (examined_bytes input)"
  then have i: "i < length input - 2" using assms by (simp add: examined_bytes_def)
  then have "examined_bytes input ! i = input ! (1 + i)"
    by (simp add: examined_bytes_def nth_butlast nth_tl)
  with i show "examined_bytes input ! i = map (\<lambda>i. input ! i) [1..<length input - 1] ! i"
    by simp
qed

lemma popcount_FF: "popcount 0xFF = 8" and popcount_00: "popcount 0x00 = 0"
  by (simp_all add: popcount_def upt_conv_Cons)

lemma length_6_cases:
  assumes "length (xs :: 'a list) = 6"
  obtains a b c d e f where "xs = [a, b, c, d, e, f]"
proof -
  from assms have "\<exists>a b c d e f. xs = [a, b, c, d, e, f]"
    by (auto simp: eval_nat_numeral length_Suc_conv)
  then show ?thesis using that by blast
qed

lemma size_t_pred_6: "size_t_pred 6 = 5"
  by (simp add: size_t_pred_def)

section \<open>Properties of the classifier\<close>

lemma wf_init: "wf_state s \<Longrightarrow> wf_state (init s)"
  by (simp add: wf_state_def init_def)

lemma processReport_total:
  assumes "wf_state s"
  shows "\<exists>s' evs. processReport s input = Some (s', evs) \<and> wf_state s'
     \<and> (0 \<le> m_buttonsActiveLow s \<longrightarrow> m_buttonsActiveLow s' = m_buttonsActiveLow s)"
proof -
  have pads: "\<exists>s' evs. processPadsLikeMk1Mk2 s input = Some (s', evs) \<and> wf_state s'
     \<and> (0 \<le> m_buttonsActiveLow s \<longrightarrow> m_buttonsActiveLow s' = m_buttonsActiveLow s)"
    using pads_loop_total [OF assms, of input 1] pads_loop_frame [of s input 1]
    unfolding processPadsLikeMk1Mk2_def by blast
  have buttons: "\<exists>s' evs. processButtonsReport s input = Some (s', evs) \<and> wf_state s'
     \<and> (0 \<le> m_buttonsActiveLow s \<longrightarrow> m_buttonsActiveLow s' = m_buttonsActiveLow s)"
    if "length input = 6"
  proof -
    from that have "0 < length input" "length input < 2 ^ 28" by simp_all
    from processButtonsReport_total [OF assms this]
    obtain s' evs where r: "processButtonsReport s input = Some (s', evs)" "wf_state s'" by blast
    with processButtonsReport_polarity [OF r(1)] show ?thesis by blast
  qed
  show ?thesis
    using assms pads buttons by (simp add: processReport_def)
qed

section \<open>The claims\<close>

subsection \<open>Pad decoder\<close>

text \<open>
  Claim C1, as stated, at the sequence of magnitudes 0, 250, 250, 150, 50 of one pad (raw
  pad 0, logical pad 12), sent to a fresh device in one pad report: the decoder emits
  three events, not two. The second sample of 250 finds the pad already marked down and
  emits a second event with the value \<open>250 / 1024\<close>.
\<close>

theorem pad_repeat_down_counterexample:
  "map_option snd
     (processPadsLikeMk1Mk2 new_device [0x20, 0, 0, 0xFA, 0, 0xFA, 0, 0x96, 0, 0x32, 0])
   = Some [KeyChanged 12 (250 / 1024) False, KeyChanged 12 (250 / 1024) False,
           KeyChanged 12 0 False]"
proof -
  have "processPadsLikeMk1Mk2 new_device [0x20, 0, 0, 0xFA, 0, 0xFA, 0, 0x96, 0, 0x32, 0]
      = decode_pairs new_device [(0, 0), (0xFA, 0), (0xFA, 0), (0x96, 0), (0x32, 0)]"
    by (simp add: processPadsLikeMk1Mk2_def pads_loop_pairs)
  then show ?thesis by (simp only: decode_run option.map snd_conv)
qed

text \<open>
  Claim C1, amended: a pair whose magnitude is greater than the threshold 200 emits a
  pad-value-changed event with the value magnitude / 1024 and marks the pad down, whether
  or not the pad was already marked down; a pair whose magnitude is at most 200 emits an
  event with the value 0 and marks the pad up exactly when the pad was marked down;
  \<open>m_padValues\<close> is updated for every pair. For one pad the sequence 0, 250, 250, 150, 50
  yields three events: one at each sample of 250 and the up event at 150.
\<close>

theorem pad_threshold_events:
  assumes "wf_state s"
  shows "map_option snd (pad_pair s lb hb)
      = Some (if pad_value lb hb > kPadThreshold
              then [KeyChanged (logical_pad hb) (real (unat (pad_value lb hb)) / 1024) False]
              else if m_padDown s ! logical_pad hb then [KeyChanged (logical_pad hb) 0 False]
              else [])
   \<and> map_option (m_padDown \<circ> fst) (pad_pair s lb hb)
      = Some ((m_padDown s)[logical_pad hb := (pad_value lb hb > kPadThreshold)])
   \<and> map_option (m_padValues \<circ> fst) (pad_pair s lb hb)
      = Some ((m_padValues s)[logical_pad hb := pad_value lb hb])
   \<and> map_option snd
        (decode_pairs new_device [(0, 0), (0xFA, 0), (0xFA, 0), (0x96, 0), (0x32, 0)])
      = Some [KeyChanged 12 (250 / 1024) False, KeyChanged 12 (250 / 1024) False,
              KeyChanged 12 0 False]"
  using pad_pair_events [OF assms] pad_pair_down [OF assms] pad_pair_values [OF assms]
  by (simp only: decode_run option.map snd_conv simp_thms)

theorem pad_threshold_events_witness:
  "wf_state (new_device \<lparr> m_padDown := (m_padDown new_device)[12 := True] \<rparr>)
   \<and> m_padDown (new_device \<lparr> m_padDown := (m_padDown new_device)[12 := True] \<rparr>) ! 12
   \<and> map_option snd
        (pad_pair (new_device \<lparr> m_padDown := (m_padDown new_device)[12 := True] \<rparr>) 0xFA 0)
      = Some [KeyChanged 12 (250 / 1024) False]"
  using pad_threshold_events [of "new_device \<lparr> m_padDown := (m_padDown new_device)[12 := True] \<rparr>" "0xFA" 0]
  by (simp add: wf_state_def new_device_def kNumPads_def kNumButtonBits_def logical_pad_def rawPad_def
      kRawPadToLogical_def pad_value_def kPadThreshold_def)

text \<open>
  Claim C6: for every pair of bytes (L, H) that the pad decoder consumes, the raw pad
  index is the high nibble of H, the magnitude is the low nibble of H times 256 plus L and
  is at most 4095, the magnitude is stored in \<open>m_padValues\<close> at the logical index that
  the permutation table gives, and an event for a magnitude above the threshold carries
  magnitude / 1024, not clamped: 1 for the magnitude 1024 and 4095 / 1024, between 3.999
  and 4, for the magnitude 4095. The decoder consumes the pairs from offset 1 on in
  order and ignores a last byte without a partner.
\<close>

theorem pad_pair_decode:
  assumes "wf_state s"
  shows "unat (rawPad hb) = unat hb div 16
   \<and> unat (pad_value lb hb) = (unat hb mod 16) * 256 + unat lb
   \<and> pad_value lb hb \<le> 4095
   \<and> map_option (m_padValues \<circ> fst) (pad_pair s lb hb)
      = Some ((m_padValues s)[unat (kRawPadToLogical ! (unat hb div 16)) := pad_value lb hb])
   \<and> (kPadThreshold < pad_value lb hb \<longrightarrow>
        map_option snd (pad_pair s lb hb)
        = Some [KeyChanged (unat (kRawPadToLogical ! (unat hb div 16)))
                  (real (unat (pad_value lb hb)) / 1024) False])
   \<and> processPadsLikeMk1Mk2 s input = decode_pairs s (byte_pairs (drop 1 input))
   \<and> pad_value 0x00 0x04 = 1024
   \<and> map_option snd (pad_pair s 0x00 0x04) = Some [KeyChanged 12 1 False]
   \<and> pad_value 0xFF 0x0F = 4095
   \<and> map_option snd (pad_pair s 0xFF 0x0F) = Some [KeyChanged 12 (4095 / 1024) False]
   \<and> (3.999 :: real) < 4095 / 1024 \<and> (4095 / 1024 :: real) < 4"
proof -
  have lp: "logical_pad hb = unat (kRawPadToLogical ! (unat hb div 16))" for hb
    by (simp add: logical_pad_def rawPad_unat)
  have v1: "pad_value 0x00 0x04 = 1024" and v2: "pad_value 0xFF 0x0F = 4095"
    by (simp_all add: pad_value_def)
  have l12: "logical_pad 0x04 = 12" "logical_pad 0x0F = 12"
    by (simp_all add: lp kRawPadToLogical_def)
  have e1: "map_option snd (pad_pair s 0x00 0x04) = Some [KeyChanged 12 1 False]"
    by (simp add: pad_pair_eq [OF assms] v1 l12 kPadThreshold_def)
  have e2: "map_option snd (pad_pair s 0xFF 0x0F) = Some [KeyChanged 12 (4095 / 1024) False]"
    by (simp add: pad_pair_eq [OF assms] v2 l12 kPadThreshold_def)
  have ev: "kPadThreshold < pad_value lb hb \<longrightarrow>
        map_option snd (pad_pair s lb hb)
        = Some [KeyChanged (unat (kRawPadToLogical ! (unat hb div 16)))
                  (real (unat (pad_value lb hb)) / 1024) False]"
    by (simp add: pad_pair_eq [OF assms] lp)
  have pv: "map_option (m_padValues \<circ> fst) (pad_pair s lb hb)
      = Some ((m_padValues s)[unat (kRawPadToLogical ! (unat hb div 16)) := pad_value lb hb])"
    by (simp add: pad_pair_eq [OF assms] lp)
  have lo: "processPadsLikeMk1Mk2 s input = decode_pairs s (byte_pairs (drop 1 input))"
    by (simp add: processPadsLikeMk1Mk2_def pads_loop_pairs)
  have ar: "(3.999 :: real) < 4095 / 1024 \<and> (4095 / 1024 :: real) < 4" by simp
  show ?thesis
    using rawPad_unat [of hb] pad_value_unat [of lb hb] pad_value_le [of lb hb] pv ev lo v1 e1 v2 e2 ar
    by blast
qed

theorem pad_pair_decode_witness:
  "wf_state new_device \<and> kPadThreshold < pad_value 0x2C 0x31
   \<and> unat (rawPad 0x31) = 3 \<and> unat (pad_value 0x2C 0x31) = 300
   \<and> map_option (m_padValues \<circ> fst) (pad_pair new_device 0x2C 0x31)
      = Some ((m_padValues new_device)[15 := 300])
   \<and> map_option snd (pad_pair new_device 0x2C 0x31) = Some [KeyChanged 15 (300 / 1024) False]"
proof -
  have w: "wf_state new_device" by (rule wf_new_device)
  have v: "pad_value 0x2C 0x31 = 300" by (simp add: pad_value_def)
  show ?thesis
    using pad_pair_decode [OF w, of "0x31" "0x2C"] w
    by (simp add: v kPadThreshold_def kRawPadToLogical_def)
qed

text \<open>
  Claim C10: the pad decoder never indexes out of bounds. The raw pad index is at most
  15, so the branch that skips a pair with \<open>rawPad >= kNumPads\<close> is never taken;
  every entry of the table of 16 entries is at most 15, so the logical pad is within
  \<open>m_padValues\<close> and \<open>m_padDown\<close>; and the decoder returns a result, with no access out
  of bounds, for every report.
\<close>

theorem pads_in_bounds:
  assumes "wf_state s"
  shows "(\<exists>s' evs. processPadsLikeMk1Mk2 s input = Some (s', evs) \<and> wf_state s')
   \<and> unat (rawPad hb) < 16 \<and> \<not> rawPad hb \<ge> kNumPads
   \<and> length kRawPadToLogical = 16 \<and> list_all (\<lambda>p. unat p < 16) kRawPadToLogical
   \<and> logical_pad hb < length (m_padValues s) \<and> logical_pad hb < length (m_padDown s)
   \<and> pad_pair s lb hb \<noteq> None"
proof -
  have p: "logical_pad hb < length (m_padValues s)" "logical_pad hb < length (m_padDown s)"
    using assms logical_pad_lt [of hb] by (simp_all add: wf_state_def kNumPads_def)
  have n: "pad_pair s lb hb \<noteq> None" by (simp add: pad_pair_eq [OF assms])
  show ?thesis
    using pads_loop_total [OF assms, of input 1] rawPad_lt [of hb] rawPad_not_ge [of hb]
      kRawPadToLogical_length kRawPadToLogical_entries p n
    unfolding processPadsLikeMk1Mk2_def by blast
qed

theorem pads_in_bounds_witness:
  "wf_state new_device
   \<and> (\<exists>s' evs. processPadsLikeMk1Mk2 new_device [0x20, 0xFF, 0xFF, 0x07] = Some (s', evs) \<and> wf_state s')
   \<and> unat (rawPad 0xFF) = 15 \<and> logical_pad 0xFF = 3"
  using pads_in_bounds [of new_device "[0x20, 0xFF, 0xFF, 0x07]" "0xFF" "0xFF"] wf_new_device
  by (simp add: rawPad_def logical_pad_def kRawPadToLogical_def)

subsection \<open>Button and encoder decoder\<close>

text \<open>
  Claim C3: on a buttons report, the low four bits of the last payload byte are the
  current encoder position. While the encoder is not initialised the position is stored
  as the baseline and no encoder event is emitted. Afterwards, a position \<open>c\<close> that
  differs from the stored position \<open>p\<close> emits exactly one encoder event, whose direction
  is "increased" if and only if (\<open>p < c\<close> or (\<open>p = 15\<close> and \<open>c = 0\<close>)) and not (\<open>p = 0\<close>
  and \<open>c = 15\<close>), with the shift state of the new frame, and \<open>c\<close> is stored; an equal
  position emits nothing. So the step from 15 to 0 is increased and the step from 0 to 15
  is not.
\<close>

theorem encoder_direction:
  assumes "wf_state s" "6 \<le> length input" "length input < 2 ^ 28"
  shows "\<exists>s' evs. processButtonsReport s input = Some (s', evs)
     \<and> (if \<not> m_encoderInitialized s
         then m_encoderInitialized s' \<and> m_encoderValue s' = last input AND 0x0F
              \<and> filter is_encoder_event evs = []
         else if last input AND 0x0F \<noteq> m_encoderValue s
         then filter is_encoder_event evs
                = [EncoderChanged 0
                     ((m_encoderValue s < last input AND 0x0F
                       \<or> (m_encoderValue s = 15 \<and> last input AND 0x0F = 0))
                      \<and> \<not> (m_encoderValue s = 0 \<and> last input AND 0x0F = 15))
                     (m_buttonDown s' ! 0)]
              \<and> m_encoderInitialized s' \<and> m_encoderValue s' = last input AND 0x0F
         else filter is_encoder_event evs = []
              \<and> m_encoderInitialized s' \<and> m_encoderValue s' = m_encoderValue s)
     \<and> snd (encoder_step (s \<lparr> m_encoderInitialized := True, m_encoderValue := 0x0F \<rparr>) 0x00 sh)
         = [EncoderChanged 0 True sh]
     \<and> snd (encoder_step (s \<lparr> m_encoderInitialized := True, m_encoderValue := 0x00 \<rparr>) 0x0F sh)
         = [EncoderChanged 0 False sh]"
  unfolding processButtonsReport_result [OF assms]
  by (simp add: edges_kind encoder_step_def Let_def)

theorem encoder_direction_witness:
  "wf_state (new_device \<lparr> m_buttonsActiveLow := 1, m_encoderInitialized := True, m_encoderValue := 0x0F \<rparr>)
   \<and> 6 \<le> length [0x01, 0xFF, 0xFF, 0xFF, 0xFF, 0x00 :: u8]
   \<and> length [0x01, 0xFF, 0xFF, 0xFF, 0xFF, 0x00 :: u8] < 2 ^ 28
   \<and> (\<exists>s' evs. processButtonsReport
          (new_device \<lparr> m_buttonsActiveLow := 1, m_encoderInitialized := True, m_encoderValue := 0x0F \<rparr>)
          [0x01, 0xFF, 0xFF, 0xFF, 0xFF, 0x00] = Some (s', evs)
        \<and> filter is_encoder_event evs = [EncoderChanged 0 True (m_buttonDown s' ! 0)]
        \<and> m_encoderValue s' = 0)"
  using encoder_direction [of "new_device \<lparr> m_buttonsActiveLow := 1, m_encoderInitialized := True, m_encoderValue := 0x0F \<rparr>"
      "[0x01, 0xFF, 0xFF, 0xFF, 0xFF, 0x00]" False] wf_new_device
  by (auto simp: wf_update)

text \<open>
  Claim C2, as stated, at the report \<open>01 FF FF FF 00 05\<close>: the bytes 1 to 3 are all
  \<open>0xFF\<close>, yet the flag \<open>allFF\<close> is false when the calibration loop ends, because the
  loop also tests byte 4.
\<close>

theorem calibration_checks_counterexample:
  "list_all (\<lambda>b. b = 0xFF) (take 3 (tl [0x01, 0xFF, 0xFF, 0xFF, 0x00, 0x05 :: u8]))
   \<and> calib_loop [0x01, 0xFF, 0xFF, 0xFF, 0x00, 0x05] (size_t_pred 6 - 1) 0 (True, True, 0)
       = Some (False, False, 24)"
  by (simp add: size_t_pred_6 calib_loop.simps elem_at_def popcount_FF popcount_00)

text \<open>
  Claim C2, amended: on a buttons report of six bytes, the calibration loop examines all
  four bit-field bytes, the bytes 1 to 4 of the report, for the all-\<open>0x00\<close> check, for
  the all-\<open>0xFF\<close> check and for the count of set bits alike; only the encoder byte, byte
  5, is left out.
\<close>

theorem calibration_scan_bytes:
  assumes "length input = 6"
  shows "calib_loop input (size_t_pred (length input) - 1) 0 (True, True, 0)
    = Some (list_all (\<lambda>b. b = 0x00) [input ! 1, input ! 2, input ! 3, input ! 4],
            list_all (\<lambda>b. b = 0xFF) [input ! 1, input ! 2, input ! 3, input ! 4],
            of_nat (popcount (input ! 1) + popcount (input ! 2) + popcount (input ! 3)
                      + popcount (input ! 4)))"
proof -
  from assms obtain a b c d e f where i: "input = [a, b, c, d, e, f]"
    by (rule length_6_cases)
  have n: "size_t_pred (length input) - 1 = 4"
    using assms by (simp add: size_t_pred_6)
  show ?thesis
    unfolding n unfolding i by (simp add: calib_loop.simps elem_at_def add.assoc)
qed

theorem calibration_scan_bytes_witness:
  "length [0x01, 0x00, 0x00, 0x00, 0xFF, 0x07 :: u8] = 6
   \<and> calib_loop [0x01, 0x00, 0x00, 0x00, 0xFF, 0x07] (size_t_pred 6 - 1) 0 (True, True, 0)
       = Some (False, False, 8)"
proof -
  have l: "length [0x01, 0x00, 0x00, 0x00, 0xFF, 0x07 :: u8] = 6" by simp
  show ?thesis
    using calibration_scan_bytes [OF l] unfolding l
    by (simp add: popcount_FF popcount_00)
qed

text \<open>
  Claim C7: on a buttons report received while the polarity is unknown, the examined
  bytes are the payload bytes without the last one, that is the bytes of the report
  from index 1 up to, and without, its last byte. The polarity becomes active-low (1)
  if all of them are \<open>0xFF\<close>; otherwise active-high (0) if all of them are \<open>0x00\<close>;
  otherwise active-low exactly when the count of their set bits is greater than half of
  their number of bits.
\<close>

theorem polarity_majority:
  assumes "wf_state s" "6 \<le> length input" "length input < 2 ^ 28" "m_buttonsActiveLow s < 0"
  shows "(\<exists>s' evs. processButtonsReport s input = Some (s', evs)
            \<and> m_buttonsActiveLow s' = majority_polarity (examined_bytes input))
     \<and> examined_bytes input = map (\<lambda>i. input ! i) [1..<length input - 1]
     \<and> majority_polarity (examined_bytes input)
        = (if list_all (\<lambda>b. b = 0xFF) (examined_bytes input) then 1
           else if list_all (\<lambda>b. b = 0x00) (examined_bytes input) then 0
           else if 8 * length (examined_bytes input) div 2
                     < sum_list (map popcount (examined_bytes input)) then 1
           else 0)"
proof -
  have p: "resolved_polarity s input = majority_polarity (examined_bytes input)"
    using assms(4) by (simp add: resolved_polarity_def)
  have "\<exists>s' evs. processButtonsReport s input = Some (s', evs)
            \<and> m_buttonsActiveLow s' = majority_polarity (examined_bytes input)"
    unfolding processButtonsReport_result [OF assms(1-3)] p
    by (simp add: encoder_step_fst)
  moreover have "examined_bytes input = map (\<lambda>i. input ! i) [1..<length input - 1]"
    by (rule examined_bytes_nth) (use assms(2) in simp)
  ultimately show ?thesis by (simp add: majority_polarity_def)
qed

theorem polarity_majority_witness:
  "wf_state new_device \<and> 6 \<le> length [0x01, 0xFF, 0xFB, 0x01, 0xFF, 0x05 :: u8]
   \<and> length [0x01, 0xFF, 0xFB, 0x01, 0xFF, 0x05 :: u8] < 2 ^ 28
   \<and> m_buttonsActiveLow new_device < 0
   \<and> examined_bytes [0x01, 0xFF, 0xFB, 0x01, 0xFF, 0x05] = [0xFF, 0xFB, 0x01, 0xFF]
   \<and> (\<exists>s' evs. processButtonsReport new_device [0x01, 0xFF, 0xFB, 0x01, 0xFF, 0x05] = Some (s', evs)
            \<and> m_buttonsActiveLow s' = 1)"
proof -
  have n: "m_buttonsActiveLow new_device < 0" by (simp add: new_device_def)
  have e: "examined_bytes [0x01, 0xFF, 0xFB, 0x01, 0xFF, 0x05] = [0xFF, 0xFB, 0x01, 0xFF]"
    by (simp add: examined_bytes_def)
  have m: "majority_polarity [0xFF, 0xFB, 0x01, 0xFF] = 1"
    by (simp add: majority_polarity_def popcount_def upt_conv_Cons)
  from polarity_majority [OF wf_new_device _ _ n, of "[0x01, 0xFF, 0xFB, 0x01, 0xFF, 0x05]"]
  have "\<exists>s' evs. processButtonsReport new_device [0x01, 0xFF, 0xFB, 0x01, 0xFF, 0x05] = Some (s', evs)
            \<and> m_buttonsActiveLow s' = 1"
    unfolding e m by simp
  with wf_new_device n e show ?thesis by simp
qed

text \<open>
  Claim C5: on a buttons report processed with the polarity already fixed, the stored
  button-down set becomes the new frame in full, and the button events are, in ascending
  order of the 32 bit positions, one event for each position whose new pressed state
  differs from the stored one and whose identity in the table, at bank \<open>4 - i div 8\<close>
  and bit \<open>i mod 8\<close>, is not \<open>Unknown\<close>; the event carries that identity, the new
  pressed state and the pressed state of position 0 of the new frame as the shift flag.
\<close>

theorem button_edges:
  assumes "wf_state s" "6 \<le> length input" "length input < 2 ^ 28" "0 \<le> m_buttonsActiveLow s"
  shows "\<exists>s' evs. processButtonsReport s input = Some (s', evs)
     \<and> m_buttonDown s' = new_frame (m_buttonsActiveLow s) input
     \<and> filter is_button_event evs
         = concat (map (edge_events (new_frame (m_buttonsActiveLow s) input) (m_buttonDown s)
                          (new_frame (m_buttonsActiveLow s) input ! 0)) [0..<32])"
proof -
  have p: "resolved_polarity s input = m_buttonsActiveLow s"
    using assms(4) by (simp add: resolved_polarity_def)
  show ?thesis
    unfolding processButtonsReport_result [OF assms(1-3)] p
    by (simp add: edges_kind encoder_step_kind)
qed

theorem button_edges_witness:
  "wf_state (new_device \<lparr> m_buttonsActiveLow := 1 \<rparr>)
   \<and> 6 \<le> length [0x01, 0xFF, 0xFF, 0xFE, 0xF7, 0x05 :: u8]
   \<and> length [0x01, 0xFF, 0xFF, 0xFE, 0xF7, 0x05 :: u8] < 2 ^ 28
   \<and> 0 \<le> m_buttonsActiveLow (new_device \<lparr> m_buttonsActiveLow := 1 \<rparr>)
   \<and> (\<exists>s' evs. processButtonsReport (new_device \<lparr> m_buttonsActiveLow := 1 \<rparr>)
          [0x01, 0xFF, 0xFF, 0xFE, 0xF7, 0x05] = Some (s', evs)
        \<and> filter is_button_event evs
            = [ButtonChanged Enter True False, ButtonChanged Duplicate True False])"
proof -
  have nf: "new_frame 1 [0x01, 0xFF, 0xFF, 0xFE, 0xF7, 0x05]
    = [False, False, False, False, False, False, False, False,
       False, False, False, False, False, False, False, False,
       True, False, False, False, False, False, False, False,
       False, False, False, True, False, False, False, False]"
    by (simp add: new_frame_def upt_0_32 pressed_bit_def)
  have ev: "concat (map (edge_events (new_frame 1 [0x01, 0xFF, 0xFF, 0xFE, 0xF7, 0x05])
                      (replicate 32 False)
                      (new_frame 1 [0x01, 0xFF, 0xFF, 0xFE, 0xF7, 0x05] ! 0)) [0..<32])
     = [ButtonChanged Enter True False, ButtonChanged Duplicate True False]"
    unfolding nf by (simp add: upt_0_32 edge_events_def kButtonByBankBit_def)
  have w: "wf_state (new_device \<lparr> m_buttonsActiveLow := 1 \<rparr>)"
    using wf_new_device by (simp add: wf_update)
  have b: "m_buttonDown (new_device \<lparr> m_buttonsActiveLow := 1 \<rparr>) = replicate 32 False"
    by (simp add: new_device_def kNumButtonBits_def)
  from button_edges [OF w, of "[0x01, 0xFF, 0xFF, 0xFE, 0xF7, 0x05]"]
  have "\<exists>s' evs. processButtonsReport (new_device \<lparr> m_buttonsActiveLow := 1 \<rparr>)
          [0x01, 0xFF, 0xFF, 0xFE, 0xF7, 0x05] = Some (s', evs)
        \<and> filter is_button_event evs
            = [ButtonChanged Enter True False, ButtonChanged Duplicate True False]"
    unfolding b by (auto simp: ev)
  with w show ?thesis by simp
qed

subsection \<open>Classifier and device state\<close>

text \<open>
  Claim C4: the classifier. An empty buffer is a no-op and \<open>read\<close> returns success; a
  report of length 6 whose first byte is \<open>0x01\<close> goes to the button and encoder decoder; a
  report of length at least 2 whose first byte is \<open>0x20\<close> goes to the pad decoder; a
  report of odd length at least 33 goes to the pad decoder; every other report, such as
  one of length 3 with the tag \<open>0x99\<close>, produces no event, leaves the state as it is and
  is no error.
\<close>

theorem classifier_rules:
  "processReport s [] = Some (s, [])
   \<and> read s (Some []) = Some (True, s, [])
   \<and> (length input = 6 \<and> hd input = 0x01 \<longrightarrow> processReport s input = processButtonsReport s input)
   \<and> (2 \<le> length input \<and> hd input = 0x20 \<longrightarrow> processReport s input = processPadsLikeMk1Mk2 s input)
   \<and> (33 \<le> length input \<and> odd (length input) \<longrightarrow>
        processReport s input = processPadsLikeMk1Mk2 s input)
   \<and> (\<not> (length input = 6 \<and> hd input = 0x01) \<and> \<not> (2 \<le> length input \<and> hd input = 0x20)
        \<and> \<not> (33 \<le> length input \<and> odd (length input)) \<longrightarrow>
        processReport s input = Some (s, [])
        \<and> (input \<noteq> [] \<longrightarrow> read s (Some input) = Some (True, s, [])))
   \<and> processReport s [0x99, a, b] = Some (s, [])"
proof -
  have h: "elem_at input 0 = Some (hd input)" if "input \<noteq> []"
    using that by (cases input) (simp_all add: elem_at_def)
  have e: "processReport s [] = Some (s, [])" "read s (Some []) = Some (True, s, [])"
    by (simp_all add: processReport_def read_def has_data_def)
  have x: "processReport s [0x99, a, b] = Some (s, [])"
    by (simp add: processReport_def has_data_def elem_at_def)
  have r: "processReport s input =
      (if input = [] then Some (s, [])
       else if length input = 6 \<and> hd input = 0x01 then processButtonsReport s input
       else if 2 \<le> length input \<and> hd input = 0x20 then processPadsLikeMk1Mk2 s input
       else if 33 \<le> length input \<and> odd (length input) then processPadsLikeMk1Mk2 s input
       else Some (s, []))"
    using h by (auto simp: processReport_def has_data_def odd_iff_mod_2_eq_one)
  have ne: "input \<noteq> []" if "length input = 6 \<or> 2 \<le> length input \<or> 33 \<le> length input"
    using that by auto
  show ?thesis
    unfolding e x using r ne by (auto simp: read_def has_data_def)
qed

theorem classifier_rules_witness:
  "length [0x01, 0xFF, 0xFF, 0xFF, 0xFF, 0x05 :: u8] = 6 \<and> hd [0x01, 0xFF, 0xFF, 0xFF, 0xFF, 0x05 :: u8] = 0x01
   \<and> processReport new_device [0x01, 0xFF, 0xFF, 0xFF, 0xFF, 0x05]
      = processButtonsReport new_device [0x01, 0xFF, 0xFF, 0xFF, 0xFF, 0x05]
   \<and> 2 \<le> length [0x20, 0xFA, 0x00 :: u8] \<and> hd [0x20, 0xFA, 0x00 :: u8] = 0x20
   \<and> processReport new_device [0x20, 0xFA, 0x00] = processPadsLikeMk1Mk2 new_device [0x20, 0xFA, 0x00]
   \<and> 33 \<le> length (replicate 33 (0 :: u8)) \<and> odd (length (replicate 33 (0 :: u8)))
   \<and> processReport new_device (replicate 33 0) = processPadsLikeMk1Mk2 new_device (replicate 33 0)
   \<and> processReport new_device [0x99, 0x01, 0x02] = Some (new_device, [])
   \<and> read new_device (Some [0x99, 0x01, 0x02]) = Some (True, new_device, [])"
  using classifier_rules [of new_device "[0x01, 0xFF, 0xFF, 0xFF, 0xFF, 0x05]" 1 2]
    classifier_rules [of new_device "[0x20, 0xFA, 0x00]" 1 2]
    classifier_rules [of new_device "replicate 33 0" 1 2]
    classifier_rules [of new_device "[0x99, 0x01, 0x02]" 1 2]
  by simp

text \<open>
  Claim C8: once the polarity is resolved, processing a report of any shape and content,
  through the classifier or by either decoder, leaves the stored polarity as it is, and
  the classifier returns on every report; \<open>init\<close> sets the polarity back to unknown.
\<close>

theorem polarity_stable:
  assumes "wf_state s" "0 \<le> m_buttonsActiveLow s"
  shows "(\<exists>s' evs. processReport s input = Some (s', evs)
            \<and> m_buttonsActiveLow s' = m_buttonsActiveLow s \<and> wf_state s')
     \<and> (\<forall>s' evs. processButtonsReport s input = Some (s', evs)
            \<longrightarrow> m_buttonsActiveLow s' = m_buttonsActiveLow s)
     \<and> (\<forall>s' evs. processPadsLikeMk1Mk2 s input = Some (s', evs)
            \<longrightarrow> m_buttonsActiveLow s' = m_buttonsActiveLow s)
     \<and> m_buttonsActiveLow (init s) = - 1 \<and> m_buttonsActiveLow (init s) < 0"
proof -
  have "\<forall>s' evs. processButtonsReport s input = Some (s', evs)
            \<longrightarrow> m_buttonsActiveLow s' = m_buttonsActiveLow s"
    using processButtonsReport_polarity [OF _ assms(2)] by blast
  moreover have "\<forall>s' evs. processPadsLikeMk1Mk2 s input = Some (s', evs)
            \<longrightarrow> m_buttonsActiveLow s' = m_buttonsActiveLow s"
    using pads_loop_frame [of s input 1] unfolding processPadsLikeMk1Mk2_def by blast
  moreover have "\<exists>s' evs. processReport s input = Some (s', evs)
            \<and> m_buttonsActiveLow s' = m_buttonsActiveLow s \<and> wf_state s'"
    using processReport_total [OF assms(1), of input] assms(2) by blast
  moreover have "m_buttonsActiveLow (init s) = - 1" by (simp add: init_def)
  ultimately show ?thesis by simp
qed

theorem polarity_stable_witness:
  "wf_state (new_device \<lparr> m_buttonsActiveLow := 0 \<rparr>)
   \<and> 0 \<le> m_buttonsActiveLow (new_device \<lparr> m_buttonsActiveLow := 0 \<rparr>)
   \<and> (\<exists>s' evs. processReport (new_device \<lparr> m_buttonsActiveLow := 0 \<rparr>)
                  [0x01, 0xFF, 0xFF, 0xFF, 0xFF, 0x05] = Some (s', evs)
            \<and> m_buttonsActiveLow s' = 0)
   \<and> (\<exists>s' evs. processButtonsReport (new_device \<lparr> m_buttonsActiveLow := 0 \<rparr>)
                  [0x01, 0xFF, 0xFF, 0xFF, 0xFF, 0x05] = Some (s', evs)
            \<and> m_buttonsActiveLow s' = 0)
   \<and> (\<exists>s' evs. processPadsLikeMk1Mk2 (new_device \<lparr> m_buttonsActiveLow := 0 \<rparr>)
                  [0x01, 0xFF, 0xFF, 0xFF, 0xFF, 0x05] = Some (s', evs)
            \<and> m_buttonsActiveLow s' = 0)
   \<and> m_buttonsActiveLow (init (new_device \<lparr> m_buttonsActiveLow := 0 \<rparr>)) = - 1"
proof -
  have w: "wf_state (new_device \<lparr> m_buttonsActiveLow := 0 \<rparr>)"
    using wf_new_device by (simp add: wf_update)
  have p: "m_buttonsActiveLow (new_device \<lparr> m_buttonsActiveLow := 0 \<rparr>) = 0" by simp
  have b: "\<exists>s' evs. processButtonsReport (new_device \<lparr> m_buttonsActiveLow := 0 \<rparr>)
                  [0x01, 0xFF, 0xFF, 0xFF, 0xFF, 0x05] = Some (s', evs)"
    using processButtonsReport_total [OF w, of "[0x01, 0xFF, 0xFF, 0xFF, 0xFF, 0x05]"] by auto
  have d: "\<exists>s' evs. processPadsLikeMk1Mk2 (new_device \<lparr> m_buttonsActiveLow := 0 \<rparr>)
                  [0x01, 0xFF, 0xFF, 0xFF, 0xFF, 0x05] = Some (s', evs)"
    using pads_loop_total [OF w, of "[0x01, 0xFF, 0xFF, 0xFF, 0xFF, 0x05]" 1]
    unfolding processPadsLikeMk1Mk2_def by auto
  show ?thesis
    using polarity_stable [OF w, of "[0x01, 0xFF, 0xFF, 0xFF, 0xFF, 0x05]"] w b d
    unfolding p by auto
qed

text \<open>
  Claim C9: the two decoders work on disjoint parts of the state. On every report, the
  button and encoder decoder leaves \<open>m_padValues\<close> and \<open>m_padDown\<close> as they are, and the
  pad decoder leaves \<open>m_buttonDown\<close>, \<open>m_buttonsActiveLow\<close>, \<open>m_encoderInitialized\<close> and
  \<open>m_encoderValue\<close> as they are. The pad decoder returns on every report, and the button
  and encoder decoder on every report that holds data.
\<close>

theorem decoders_frame:
  "(\<forall>s' evs. processButtonsReport s input = Some (s', evs)
       \<longrightarrow> m_padValues s' = m_padValues s \<and> m_padDown s' = m_padDown s)
   \<and> (\<forall>s' evs. processPadsLikeMk1Mk2 s input = Some (s', evs)
       \<longrightarrow> m_buttonDown s' = m_buttonDown s
         \<and> m_buttonsActiveLow s' = m_buttonsActiveLow s
         \<and> m_encoderInitialized s' = m_encoderInitialized s
         \<and> m_encoderValue s' = m_encoderValue s)
   \<and> (wf_state s \<longrightarrow> processPadsLikeMk1Mk2 s input \<noteq> None)
   \<and> (wf_state s \<and> input \<noteq> [] \<and> length input < 2 ^ 28
       \<longrightarrow> processButtonsReport s input \<noteq> None)"
proof -
  have "\<forall>s' evs. processButtonsReport s input = Some (s', evs)
       \<longrightarrow> m_padValues s' = m_padValues s \<and> m_padDown s' = m_padDown s"
    using processButtonsReport_frame by blast
  moreover have "\<forall>s' evs. processPadsLikeMk1Mk2 s input = Some (s', evs)
       \<longrightarrow> m_buttonDown s' = m_buttonDown s
         \<and> m_buttonsActiveLow s' = m_buttonsActiveLow s
         \<and> m_encoderInitialized s' = m_encoderInitialized s
         \<and> m_encoderValue s' = m_encoderValue s"
    using pads_loop_frame [of s input 1] unfolding processPadsLikeMk1Mk2_def by blast
  moreover have "processPadsLikeMk1Mk2 s input \<noteq> None" if "wf_state s"
    using pads_loop_total [OF that, of input 1] unfolding processPadsLikeMk1Mk2_def by auto
  moreover have "processButtonsReport s input \<noteq> None"
    if "wf_state s" "input \<noteq> []" "length input < 2 ^ 28"
  proof -
    from that(2) have "0 < length input" by simp
    from processButtonsReport_total [OF that(1) this that(3)] show ?thesis by auto
  qed
  ultimately show ?thesis by blast
qed

theorem decoders_frame_witness:
  "wf_state new_device
   \<and> [0x01, 0x00, 0x02, 0x00, 0x00, 0x07 :: u8] \<noteq> []
   \<and> length [0x01, 0x00, 0x02, 0x00, 0x00, 0x07 :: u8] < 2 ^ 28
   \<and> (\<exists>s' evs. processButtonsReport new_device [0x01, 0x00, 0x02, 0x00, 0x00, 0x07] = Some (s', evs)
            \<and> m_padValues s' = m_padValues new_device \<and> m_padDown s' = m_padDown new_device)
   \<and> (\<exists>s' evs. processPadsLikeMk1Mk2 new_device [0x01, 0x00, 0x02, 0x00, 0x00, 0x07] = Some (s', evs)
            \<and> m_buttonDown s' = m_buttonDown new_device
            \<and> m_buttonsActiveLow s' = m_buttonsActiveLow new_device
            \<and> m_encoderInitialized s' = m_encoderInitialized new_device
            \<and> m_encoderValue s' = m_encoderValue new_device)"
  using decoders_frame [of new_device "[0x01, 0x00, 0x02, 0x00, 0x00, 0x07]"] wf_new_device
  by auto

end
